theory Spec2Isabelle
  imports Main "HOL-Library.Word" "HOL-Library.DAList"
begin

section \<open>The chat room: channels, the coordination loop and the acceptor\<close>

text \<open>
  The development embeds the room of the chat server: \<^verbatim>\<open>room.run\<close>, the loop that
  serialises joining, leaving and forwarding, \<^verbatim>\<open>room.ServeHTTP\<close>, which accepts a
  client, and the two pumps \<^verbatim>\<open>client.read\<close> and \<^verbatim>\<open>client.write\<close>, as far as they
  touch the room and the client's \<^verbatim>\<open>send\<close> channel.
\<close>

subsection \<open>Buffered channels\<close>

text \<open>
  A message is a \<^verbatim>\<open>[]byte\<close>. A buffered Go channel is its queue of pending values, its
  capacity and whether it has been closed.
\<close>

type_synonym msg = "8 word list"

record chan =
  buf :: "msg list"
  cap :: nat
  closed :: bool

text \<open>\<^verbatim>\<open>make(chan []byte, n)\<close>\<close>

definition make_chan :: "nat \<Rightarrow> chan" where
  "make_chan n = \<lparr>buf = [], cap = n, closed = False\<rparr>"

text \<open>
  The two run-time panics of channel operations. Nothing in the program recovers from a
  panic, so a panic in the coordination loop ends the loop (and the process).
\<close>

datatype panic = CloseOfClosedChannel | SendOnClosedChannel

text \<open>\<^verbatim>\<open>close(ch)\<close>: closing a channel that is already closed panics.\<close>

definition close_chan :: "chan \<Rightarrow> panic + chan" where
  "close_chan ch = (if closed ch then Inl CloseOfClosedChannel else Inr (ch\<lparr>closed := True\<rparr>))"

text \<open>
  \<^verbatim>\<open>select { case ch <- m: ... default: ... }\<close>: the send is chosen when it can proceed.
  A send on a closed channel proceeds by panicking; a send on an open buffered channel
  proceeds when the buffer has room. Otherwise the default case runs: \<open>None\<close>.
\<close>

definition select_send :: "chan \<Rightarrow> msg \<Rightarrow> panic + chan option" where
  "select_send ch m =
     (if closed ch then Inl SendOnClosedChannel
      else if length (buf ch) < cap ch then Inr (Some (ch\<lparr>buf := buf ch @ [m]\<rparr>))
      else Inr None)"

text \<open>
  One receive of \<^verbatim>\<open>for msg := range c.send\<close>: the oldest pending message is taken, also from
  a closed channel; with nothing pending the receiver waits or the loop ends, and the
  channel is as before.
\<close>

definition chan_recv :: "chan \<Rightarrow> chan" where
  "chan_recv ch = (case buf ch of [] \<Rightarrow> ch | m # ms \<Rightarrow> ch\<lparr>buf := ms\<rparr>)"

subsection \<open>The room and its clients\<close>

text \<open>
  A \<^verbatim>\<open>*client\<close> is the address of a client struct. The state holds the room's
  \<^verbatim>\<open>clients\<close> map (a \<^verbatim>\<open>map[*client]bool\<close>, as an association list with distinct keys),
  the calls made on the room's \<^verbatim>\<open>tracer\<close>, and the store of the clients' \<^verbatim>\<open>send\<close> channels:
  \<open>send s c\<close> is the channel that the field \<^verbatim>\<open>send\<close> of client \<open>c\<close> refers to. The field is
  set once, by \<^verbatim>\<open>ServeHTTP\<close>, to a channel of its own for every client.
\<close>

type_synonym client = nat

record state =
  clients :: "(client, bool) alist"
  tracer :: "string list"
  send :: "client \<Rightarrow> chan"

definition messageBufferSize :: nat where
  "messageBufferSize = 256"

text \<open>
  \<^verbatim>\<open>newRoom\<close>: no client is in the map. \<^verbatim>\<open>newRoom\<close> itself makes no client channel; the
  store of this state holds, for every client address, the channel that \<^verbatim>\<open>ServeHTTP\<close>
  makes when it creates the client there, \<^verbatim>\<open>make(chan []byte, messageBufferSize)\<close>, so
  that accepting a client leaves the state as it is (\<open>serve_accept_newRoom\<close> below).
\<close>

definition newRoom :: state where
  "newRoom = \<lparr>clients = DAList.empty, tracer = [], send = (\<lambda>c. make_chan messageBufferSize)\<rparr>"

text \<open>\<^verbatim>\<open>r.tracer.Trace(a)\<close>\<close>

definition Trace :: "string \<Rightarrow> state \<Rightarrow> state" where
  "Trace a s = s\<lparr>tracer := tracer s @ [a]\<rparr>"

text \<open>The keys of \<^verbatim>\<open>r.clients\<close>, in the order the model ranges over them, and as a set.\<close>

definition client_keys :: "state \<Rightarrow> client list" where
  "client_keys s = map fst (DAList.impl_of (clients s))"

definition members :: "state \<Rightarrow> client set" where
  "members s = set (client_keys s)"

subsection \<open>The coordination loop\<close>

text \<open>What the loop receives on \<^verbatim>\<open>r.join\<close>, \<^verbatim>\<open>r.leave\<close> and \<^verbatim>\<open>r.forward\<close>.\<close>

datatype event = Join client | Leave client | Forward msg

text \<open>
  The inner loop of the forward case, \<^verbatim>\<open>for client := range r.clients\<close>, over the keys
  that are still to be visited. The body deletes only the key it is visiting, so the keys
  to visit are those the map had when the loop began.
\<close>

fun forward_range :: "msg \<Rightarrow> client list \<Rightarrow> state \<Rightarrow> panic + state" where
  "forward_range m [] s = Inr s"
| "forward_range m (c # cs) s =
     (case select_send (send s c) m of
        Inl p \<Rightarrow> Inl p
      | Inr (Some ch) \<Rightarrow>
          forward_range m cs (Trace '' -- sent to client'' (s\<lparr>send := (send s)(c := ch)\<rparr>))
      | Inr None \<Rightarrow>
          (case close_chan (send s c) of
             Inl p \<Rightarrow> Inl p
           | Inr ch \<Rightarrow>
               forward_range m cs
                 (Trace '' -- failed to send, cleaned up client''
                    (s\<lparr>clients := DAList.delete c (clients s), send := (send s)(c := ch)\<rparr>))))"

text \<open>One iteration of \<^verbatim>\<open>for { select { ... } }\<close> in \<^verbatim>\<open>room.run\<close>, on the event received.\<close>

fun step :: "event \<Rightarrow> state \<Rightarrow> panic + state" where
  "step (Join c) s =
     Inr (Trace ''New client joined'' (s\<lparr>clients := DAList.update c True (clients s)\<rparr>))"
| "step (Leave c) s =
     (case close_chan (send s c) of
        Inl p \<Rightarrow> Inl p
      | Inr ch \<Rightarrow>
          Inr (Trace ''Client left''
                 (s\<lparr>clients := DAList.delete c (clients s), send := (send s)(c := ch)\<rparr>)))"
| "step (Forward m) s = forward_range m (client_keys s) s"

text \<open>
  The system is the loop together with the clients' write pumps: an action is either an
  event the loop processes or one receive of a client's \<^verbatim>\<open>write\<close> from its \<^verbatim>\<open>send\<close>
  channel. Channel operations are atomic, so a run of the system is a sequence of actions.
\<close>

datatype action = Hub event | Write client

fun act :: "action \<Rightarrow> state \<Rightarrow> panic + state" where
  "act (Hub e) s = step e s"
| "act (Write c) s = Inr (s\<lparr>send := (send s)(c := chan_recv (send s c))\<rparr>)"

text \<open>\<^verbatim>\<open>room.run\<close> on the actions that occur, in their order; a panic ends the run.\<close>

fun run :: "action list \<Rightarrow> state \<Rightarrow> panic + state" where
  "run [] s = Inr s"
| "run (a # as) s = (case act a s of Inl p \<Rightarrow> Inl p | Inr s' \<Rightarrow> run as s')"

subsection \<open>The acceptor and the read pump\<close>

text \<open>
  \<^verbatim>\<open>client.read\<close>: every message read from the socket is sent on \<^verbatim>\<open>c.room.forward\<close>, until
  \<^verbatim>\<open>ReadMessage\<close> fails; \<open>msgs\<close> are the messages read. What goes on the channel is the
  message alone, not the client that read it.
\<close>

definition read :: "client \<Rightarrow> msg list \<Rightarrow> event list" where
  "read c msgs = map Forward msgs"

text \<open>
  \<^verbatim>\<open>room.ServeHTTP\<close>. \<open>err\<close> is the error that \<^verbatim>\<open>upgrader.Upgrade\<close> returns, \<open>client\<close> the
  address of the client struct the call allocates, and \<open>msgs\<close> the messages its read pump
  receives. With an error the call reaches \<^verbatim>\<open>log.Fatal\<close>, which prints and calls
  \<^verbatim>\<open>os.Exit(1)\<close>: the process ends, and the \<^verbatim>\<open>return\<close> after it is never reached.
  Otherwise the call makes the client with its \<^verbatim>\<open>send\<close> channel, sends it on \<^verbatim>\<open>r.join\<close>,
  runs \<^verbatim>\<open>read\<close>, and on return the deferred function sends the client on \<^verbatim>\<open>r.leave\<close>:
  the result is the channel and the events the call submits to the loop, in order.
\<close>

datatype served = Exit nat | Session chan "event list"

definition ServeHTTP :: "string option \<Rightarrow> client \<Rightarrow> msg list \<Rightarrow> served" where
  "ServeHTTP err client msgs =
     (if err \<noteq> None then Exit 1
      else Session (make_chan messageBufferSize)
             (Join client # read client msgs @ [Leave client]))"

text \<open>
  The server as a whole. Something occurs when a call of \<^verbatim>\<open>ServeHTTP\<close> gets past the
  upgrade and makes its client, or when the loop or a write pump performs an action.
  \<open>Accept err c msgs\<close> is the call whose upgrade returned \<open>err\<close> and whose client struct
  is \<open>c\<close>: with an error the process exits; otherwise the \<^verbatim>\<open>send\<close> field of \<open>c\<close> refers,
  from then on, to the channel that \<^verbatim>\<open>ServeHTTP\<close> has made. The events of the call reach
  the loop as actions of their own.
\<close>

datatype occurrence = Accept "string option" client "msg list" | Do action

datatype outcome = Exited nat | Panicked panic | Running (the_state: state)

fun serve :: "occurrence list \<Rightarrow> state \<Rightarrow> outcome" where
  "serve [] s = Running s"
| "serve (Accept err c msgs # os) s =
     (case ServeHTTP err c msgs of
        Exit n \<Rightarrow> Exited n
      | Session ch evs \<Rightarrow> serve os (s\<lparr>send := (send s)(c := ch)\<rparr>))"
| "serve (Do a # os) s =
     (case act a s of Inl p \<Rightarrow> Panicked p | Inr s' \<Rightarrow> serve os s')"

subsection \<open>Notions used in the statements\<close>

text \<open>A mailbox has room when the buffer of the channel is below its capacity.\<close>

definition has_room :: "chan \<Rightarrow> bool" where
  "has_room ch = (length (buf ch) < cap ch)"

text \<open>
  What one pass of the forward loop does to the channel of a member whose channel is
  open: the message is appended when there is room, and the channel is closed otherwise.
\<close>

definition deliver :: "msg \<Rightarrow> chan \<Rightarrow> chan" where
  "deliver m ch = (if has_room ch then ch\<lparr>buf := buf ch @ [m]\<rparr> else ch\<lparr>closed := True\<rparr>)"

text \<open>No member's channel has been closed.\<close>

definition members_open :: "state \<Rightarrow> bool" where
  "members_open s = (\<forall>c\<in>set (client_keys s). \<not> closed (send s c))"

text \<open>
  The membership as the specification counts it: the sessions that have joined and have
  not left since, where the sessions that leave by an action are the session of a Leave
  and, for a Forward, the sessions whose mailbox has no room when it is processed (the
  evicted ones). The mailboxes are those of the run; an action on which the loop panics
  leaves them as they were.
\<close>

fun joined :: "action \<Rightarrow> client set" where
  "joined (Hub (Join c)) = {c}"
| "joined a = {}"

fun left :: "action \<Rightarrow> state \<Rightarrow> client set" where
  "left (Hub (Leave c)) s = {c}"
| "left (Hub (Forward m)) s = {c. \<not> has_room (send s c)}"
| "left a s = {}"

fun joined_not_left :: "action list \<Rightarrow> state \<Rightarrow> client set \<Rightarrow> client set" where
  "joined_not_left [] s M = M"
| "joined_not_left (a # as) s M =
     joined_not_left as (case act a s of Inl p \<Rightarrow> s | Inr s' \<Rightarrow> s')
       ((M \<union> joined a) - left a s)"

text \<open>
  Sequences in which no session joins twice, or joins after it has left: \<open>S\<close> holds the
  sessions that have joined or left so far. The sequences that calls of \<^verbatim>\<open>ServeHTTP\<close>
  produce are of this kind, each call having a client of its own.
\<close>

fun joins_once :: "action list \<Rightarrow> client set \<Rightarrow> bool" where
  "joins_once [] S = True"
| "joins_once (Hub (Join c) # as) S = (c \<notin> S \<and> joins_once as (insert c S))"
| "joins_once (Hub (Leave c) # as) S = joins_once as (insert c S)"
| "joins_once (a # as) S = joins_once as S"

text \<open>
  Rooms for examples. In \<open>quiet_room\<close> and \<open>example_room\<close> clients 2 and 3 have joined. In
  \<open>quiet_room\<close> no mailbox holds a message; in \<open>example_room\<close> the mailbox of client 2
  holds \<open>messageBufferSize\<close> messages that its write pump has not taken. In \<open>unmade\<close> nobody
  has joined and no client has a channel that \<^verbatim>\<open>ServeHTTP\<close> made: every cell of the store
  holds a channel of capacity 0.
\<close>

definition backed_up :: chan where
  "backed_up = \<lparr>buf = replicate messageBufferSize [], cap = messageBufferSize, closed = False\<rparr>"

definition example_room :: state where
  "example_room =
     \<lparr>clients = DAList.update 3 True (DAList.update 2 True DAList.empty), tracer = [],
      send = (\<lambda>c. make_chan messageBufferSize)(2 := backed_up)\<rparr>"

definition quiet_room :: state where
  "quiet_room =
     \<lparr>clients = DAList.update 3 True (DAList.update 2 True DAList.empty), tracer = [],
      send = (\<lambda>c. make_chan messageBufferSize)\<rparr>"

definition unmade :: state where
  "unmade = \<lparr>clients = DAList.empty, tracer = [], send = (\<lambda>c. make_chan 0)\<rparr>"

section \<open>Properties\<close>

subsection \<open>The state after a pass of the forward loop\<close>

lemma Trace_simps [simp]:
  "clients (Trace a s) = clients s" "send (Trace a s) = send s"
  "tracer (Trace a s) = tracer s @ [a]"
  by (simp_all add: Trace_def)

lemma client_keys_Trace [simp]: "client_keys (Trace a s) = client_keys s"
  by (simp add: client_keys_def)

lemma client_keys_send_update [simp]: "client_keys (s\<lparr>send := f\<rparr>) = client_keys s"
  by (simp add: client_keys_def)

lemma distinct_client_keys [simp]: "distinct (client_keys s)"
  by (simp add: client_keys_def)

lemma client_keys_delete [simp]:
  "client_keys (s\<lparr>clients := DAList.delete c (clients s)\<rparr>) = removeAll c (client_keys s)"
  by (simp add: client_keys_def delete.rep_eq delete_keys)

lemma client_keys_update [simp]:
  "client_keys (s\<lparr>clients := DAList.update c v (clients s)\<rparr>) =
     (if c \<in> set (client_keys s) then client_keys s else client_keys s @ [c])"
  by (simp add: client_keys_def update.rep_eq update_keys)

lemma forward_range_ok:
  "distinct cs \<Longrightarrow> \<forall>c\<in>set cs. \<not> closed (send s c) \<Longrightarrow> \<exists>s'. forward_range m cs s = Inr s'"
proof (induction cs arbitrary: s)
  case Nil
  then show ?case by simp
next
  case (Cons c cs)
  have open_c: "\<not> closed (send s c)" and rest: "\<forall>d\<in>set cs. d \<noteq> c \<and> \<not> closed (send s d)"
    using Cons.prems by auto
  show ?case
  proof (cases "length (buf (send s c)) < cap (send s c)")
    case True
    have "\<exists>s'. forward_range m cs (Trace '' -- sent to client''
            (s\<lparr>send := (send s)(c := (send s c)\<lparr>buf := buf (send s c) @ [m]\<rparr>)\<rparr>)) = Inr s'"
      using Cons.prems rest by (intro Cons.IH) auto
    with True open_c show ?thesis
      by (simp add: select_send_def)
  next
    case False
    have "\<exists>s'. forward_range m cs (Trace '' -- failed to send, cleaned up client''
            (s\<lparr>clients := DAList.delete c (clients s),
               send := (send s)(c := (send s c)\<lparr>closed := True\<rparr>)\<rparr>)) = Inr s'"
      using Cons.prems rest by (intro Cons.IH) auto
    with False open_c show ?thesis
      by (simp add: select_send_def close_chan_def)
  qed
qed

lemma forward_range_send_other:
  "forward_range m cs s = Inr s' \<Longrightarrow> c \<notin> set cs \<Longrightarrow> send s' c = send s c"
proof (induction cs arbitrary: s)
  case Nil
  then show ?case by simp
next
  case (Cons d cs)
  then show ?case
    by (fastforce simp: select_send_def close_chan_def split: if_splits)
qed

lemma forward_range_send:
  "forward_range m cs s = Inr s' \<Longrightarrow> distinct cs \<Longrightarrow> c \<in> set cs \<Longrightarrow>
     \<not> closed (send s c) \<and> send s' c = deliver m (send s c)"
proof (induction cs arbitrary: s)
  case Nil
  then show ?case by simp
next
  case (Cons d cs)
  show ?case
  proof (cases "c = d")
    case True
    with Cons.prems show ?thesis
      by (auto simp: select_send_def close_chan_def deliver_def has_room_def
               split: if_splits dest!: forward_range_send_other [where c = d])
  next
    case False
    with Cons.prems Cons.IH show ?thesis
      by (fastforce simp: select_send_def close_chan_def split: if_splits)
  qed
qed

lemma forward_range_keys:
  "forward_range m cs s = Inr s' \<Longrightarrow> distinct cs \<Longrightarrow>
     client_keys s' = filter (\<lambda>c. \<not> (c \<in> set cs \<and> \<not> has_room (send s c))) (client_keys s)"
proof (induction cs arbitrary: s)
  case Nil
  then show ?case by simp
next
  case (Cons d cs)
  show ?case
  proof (cases "has_room (send s d)")
    case True
    with Cons.prems have
      "forward_range m cs (Trace '' -- sent to client''
          (s\<lparr>send := (send s)(d := (send s d)\<lparr>buf := buf (send s d) @ [m]\<rparr>)\<rparr>)) = Inr s'"
      by (simp add: select_send_def has_room_def split: if_splits)
    from Cons.IH [OF this] Cons.prems True show ?thesis
      by (auto intro!: filter_cong)
  next
    case False
    with Cons.prems have
      "forward_range m cs (Trace '' -- failed to send, cleaned up client''
          (s\<lparr>clients := DAList.delete d (clients s),
             send := (send s)(d := (send s d)\<lparr>closed := True\<rparr>)\<rparr>)) = Inr s'"
      by (simp add: select_send_def close_chan_def has_room_def split: if_splits)
    from Cons.IH [OF this] Cons.prems False show ?thesis
      by (auto simp: removeAll_filter_not_eq intro!: filter_cong)
  qed
qed

lemma forward_range_tracer:
  "forward_range m cs s = Inr s' \<Longrightarrow> distinct cs \<Longrightarrow>
     tracer s' = tracer s @
       map (\<lambda>c. if has_room (send s c) then '' -- sent to client''
                else '' -- failed to send, cleaned up client'') cs"
proof (induction cs arbitrary: s)
  case Nil
  then show ?case by simp
next
  case (Cons d cs)
  then show ?case
    by (fastforce simp: select_send_def close_chan_def has_room_def split: if_splits)
qed

lemma members_Trace [simp]: "members (Trace a s) = members s"
  by (simp add: members_def)

lemma members_update [simp]:
  "members (s\<lparr>clients := DAList.update c v (clients s)\<rparr>) = insert c (members s)"
  by (auto simp: members_def)

lemma members_delete [simp]:
  "members (s\<lparr>clients := DAList.delete c (clients s)\<rparr>) = members s - {c}"
  by (auto simp: members_def)

lemma members_send_update [simp]: "members (s\<lparr>send := f\<rparr>) = members s"
  by (simp add: members_def)

lemma Forward_ok: "members_open s \<Longrightarrow> \<exists>s'. step (Forward m) s = Inr s'"
  by (simp add: members_open_def forward_range_ok)

lemma Forward_send:
  assumes "step (Forward m) s = Inr s'"
  shows "send s' c = (if c \<in> members s then deliver m (send s c) else send s c)"
  using assms forward_range_send [of m "client_keys s" s s' c]
    forward_range_send_other [of m "client_keys s" s s' c]
  by (simp add: members_def)

lemma Forward_member_open:
  "step (Forward m) s = Inr s' \<Longrightarrow> c \<in> members s \<Longrightarrow> \<not> closed (send s c)"
  using forward_range_send [of m "client_keys s" s s' c] by (simp add: members_def)

lemma Forward_keys:
  assumes "step (Forward m) s = Inr s'"
  shows "client_keys s' = filter (\<lambda>c. has_room (send s c)) (client_keys s)"
proof -
  have "client_keys s' =
      filter (\<lambda>c. \<not> (c \<in> set (client_keys s) \<and> \<not> has_room (send s c))) (client_keys s)"
    using assms forward_range_keys [of m "client_keys s" s s'] by simp
  also have "\<dots> = filter (\<lambda>c. has_room (send s c)) (client_keys s)"
    by (rule filter_cong) auto
  finally show ?thesis .
qed

lemma Forward_members:
  "step (Forward m) s = Inr s' \<Longrightarrow> members s' = members s - {c. \<not> has_room (send s c)}"
  using Forward_keys [of m s s'] by (auto simp: members_def simp del: step.simps)

lemma Forward_tracer:
  "step (Forward m) s = Inr s' \<Longrightarrow>
     tracer s' = tracer s @
       map (\<lambda>c. if has_room (send s c) then '' -- sent to client''
                else '' -- failed to send, cleaned up client'') (client_keys s)"
  using forward_range_tracer [of m "client_keys s" s s'] by simp

subsection \<open>Single actions\<close>

lemma act_closed:
  assumes "act a s = Inr s'" and "closed (send s c)"
  shows "closed (send s' c) \<and> (\<exists>k. buf (send s' c) = drop k (buf (send s c)))"
proof (cases a)
  case (Hub e)
  show ?thesis
  proof (cases e)
    case (Join d)
    with Hub assms show ?thesis by (auto intro: exI [of _ 0])
  next
    case (Leave d)
    with Hub assms show ?thesis
      by (auto simp: close_chan_def split: if_splits intro: exI [of _ 0])
  next
    case (Forward m)
    with Hub assms have s': "step (Forward m) s = Inr s'" by simp
    have "c \<notin> members s"
      using Forward_member_open [OF s'] assms(2) by blast
    then have "send s' c = send s c"
      using Forward_send [OF s'] by simp
    with assms(2) show ?thesis by (auto intro: exI [of _ 0])
  qed
next
  case (Write d)
  show ?thesis
  proof (cases "d = c")
    case True
    with Write assms show ?thesis
      by (auto simp: chan_recv_def split: list.splits intro: exI [of _ 0] exI [of _ 1])
  next
    case False
    with Write assms show ?thesis by (auto intro: exI [of _ 0])
  qed
qed

lemma act_removed_closed:
  assumes "act a s = Inr s'" and "c \<in> members s" and "c \<notin> members s'"
  shows "closed (send s' c)"
proof (cases a)
  case (Hub e)
  show ?thesis
  proof (cases e)
    case (Join d)
    with Hub assms show ?thesis by auto
  next
    case (Leave d)
    with Hub assms show ?thesis
      by (auto simp: close_chan_def split: if_splits)
  next
    case (Forward m)
    with Hub assms have s': "step (Forward m) s = Inr s'" by simp
    have "\<not> has_room (send s c)"
      using Forward_members [OF s'] assms(2,3) by auto
    then show ?thesis
      using Forward_send [OF s', of c] assms(2) by (simp add: deliver_def)
  qed
next
  case (Write d)
  with assms show ?thesis by auto
qed

lemma act_members_open:
  assumes "act a s = Inr s'" and "members_open s"
    and "\<And>c. a = Hub (Join c) \<Longrightarrow> \<not> closed (send s c)"
  shows "members_open s'"
proof (cases a)
  case (Hub e)
  show ?thesis
  proof (cases e)
    case (Join d)
    with Hub assms show ?thesis by (auto simp: members_open_def split: if_splits)
  next
    case (Leave d)
    with Hub assms show ?thesis
      by (auto simp: members_open_def close_chan_def split: if_splits)
  next
    case (Forward m)
    with Hub assms have s': "step (Forward m) s = Inr s'" by simp
    show ?thesis
      unfolding members_open_def
    proof
      fix c assume "c \<in> set (client_keys s')"
      then have c': "c \<in> members s'" by (simp add: members_def)
      then have "c \<in> members s" and "has_room (send s c)"
        using Forward_members [OF s'] by auto
      moreover from this have "\<not> closed (send s c)"
        using assms(2) by (simp add: members_open_def members_def)
      ultimately show "\<not> closed (send s' c)"
        using Forward_send [OF s', of c] by (simp add: deliver_def)
    qed
  qed
next
  case (Write d)
  with assms show ?thesis
    by (auto simp: members_open_def chan_recv_def split: list.splits if_splits)
qed

lemma act_members:
  assumes "act a s = Inr s'"
  shows "members s' = (members s \<union> joined a) - left a s"
proof (cases a)
  case (Hub e)
  show ?thesis
  proof (cases e)
    case (Join d)
    with Hub assms show ?thesis by auto
  next
    case (Leave d)
    with Hub assms show ?thesis
      by (auto simp: close_chan_def split: if_splits)
  next
    case (Forward m)
    with Hub assms have s': "step (Forward m) s = Inr s'" by simp
    show ?thesis
      using Forward_members [OF s'] Hub Forward by simp
  qed
next
  case (Write d)
  with assms show ?thesis by auto
qed

lemma act_cap:
  assumes "act a s = Inr s'"
  shows "cap (send s' c) = cap (send s c) \<and>
         (length (buf (send s c)) \<le> cap (send s c) \<longrightarrow>
          length (buf (send s' c)) \<le> cap (send s' c))"
proof (cases a)
  case (Hub e)
  show ?thesis
  proof (cases e)
    case (Join d)
    with Hub assms show ?thesis by auto
  next
    case (Leave d)
    with Hub assms show ?thesis
      by (auto simp: close_chan_def split: if_splits)
  next
    case (Forward m)
    with Hub assms have s': "step (Forward m) s = Inr s'" by simp
    show ?thesis
      using Forward_send [OF s', of c] by (auto simp: deliver_def has_room_def)
  qed
next
  case (Write d)
  with assms show ?thesis
    by (auto simp: chan_recv_def split: list.splits)
qed

lemma act_closed_seen:
  assumes "act a s = Inr s'" and "members s \<subseteq> S" and "\<forall>c. closed (send s c) \<longrightarrow> c \<in> S"
  shows "members s' \<subseteq> S \<union> joined a \<and> (\<forall>c. closed (send s' c) \<longrightarrow> c \<in> S \<union> left a s)"
proof (cases a)
  case (Hub e)
  show ?thesis
  proof (cases e)
    case (Join d)
    with Hub assms show ?thesis by auto
  next
    case (Leave d)
    with Hub assms show ?thesis
      by (auto simp: close_chan_def split: if_splits)
  next
    case (Forward m)
    with Hub assms have s': "step (Forward m) s = Inr s'" by simp
    have "members s' \<subseteq> S"
      using Forward_members [OF s'] assms(2) by auto
    moreover have "c \<in> S" if "closed (send s' c)" for c
      using that Forward_send [OF s', of c] assms(2,3)
      by (auto simp: deliver_def split: if_splits)
    ultimately show ?thesis by blast
  qed
next
  case (Write d)
  with assms show ?thesis
    by (auto simp: chan_recv_def split: list.splits if_splits)
qed

subsection \<open>Runs\<close>

lemma run_append:
  "run (as @ bs) s = (case run as s of Inl p \<Rightarrow> Inl p | Inr t \<Rightarrow> run bs t)"
  by (induction as arbitrary: s) (auto split: sum.splits)

lemma run_closed:
  "run as s = Inr s' \<Longrightarrow> closed (send s c) \<Longrightarrow>
     closed (send s' c) \<and> (\<exists>k. buf (send s' c) = drop k (buf (send s c)))"
proof (induction as arbitrary: s)
  case Nil
  then show ?case by (auto intro: exI [of _ 0])
next
  case (Cons a as)
  from Cons.prems(1) obtain t where t: "act a s = Inr t" and r: "run as t = Inr s'"
    by (auto split: sum.splits)
  from act_closed [OF t Cons.prems(2)] obtain k
    where ct: "closed (send t c)" and k: "buf (send t c) = drop k (buf (send s c))"
    by blast
  from Cons.IH [OF r ct] obtain j
    where "closed (send s' c)" and "buf (send s' c) = drop j (buf (send t c))"
    by blast
  then show ?case
    using k by (auto intro: exI [of _ "j + k"] simp: add.commute)
qed

lemma run_cap:
  "run as s = Inr s' \<Longrightarrow> length (buf (send s c)) \<le> cap (send s c) \<Longrightarrow>
     cap (send s' c) = cap (send s c) \<and> length (buf (send s' c)) \<le> cap (send s' c)"
proof (induction as arbitrary: s)
  case Nil
  then show ?case by simp
next
  case (Cons a as)
  from Cons.prems(1) obtain t where t: "act a s = Inr t" and r: "run as t = Inr s'"
    by (auto split: sum.splits)
  have "cap (send t c) = cap (send s c)" and "length (buf (send t c)) \<le> cap (send t c)"
    using act_cap [OF t, of c] Cons.prems(2) by simp_all
  then show ?case
    using Cons.IH [OF r] by simp
qed

text \<open>
  On a run without a panic the membership is the set of sessions that have joined and not
  left, evictions counted as leaving.
\<close>

lemma run_members:
  "run as s = Inr s' \<Longrightarrow> members s' = joined_not_left as s (members s)"
proof (induction as arbitrary: s)
  case Nil
  then show ?case by simp
next
  case (Cons a as)
  from Cons.prems obtain t where t: "act a s = Inr t" and r: "run as t = Inr s'"
    by (auto split: sum.splits)
  show ?case
    using Cons.IH [OF r] act_members [OF t] t by simp
qed

lemma members_newRoom: "members newRoom = {}"
  by (simp add: members_def client_keys_def newRoom_def empty.rep_eq)

lemma newRoom_run_members:
  "run as newRoom = Inr s \<Longrightarrow> members s = joined_not_left as newRoom {}"
  using run_members [of as newRoom s] by (simp add: members_newRoom)

text \<open>
  From the new room, a run in which no session joins twice or after leaving reaches only
  states in which the members' mailboxes are open.
\<close>

lemma run_members_open:
  "run as s = Inr s' \<Longrightarrow> joins_once as S \<Longrightarrow> members_open s \<Longrightarrow> members s \<subseteq> S \<Longrightarrow>
     \<forall>c. closed (send s c) \<longrightarrow> c \<in> S \<Longrightarrow> members_open s'"
proof (induction as arbitrary: s S)
  case Nil
  then show ?case by simp
next
  case (Cons a as)
  from Cons.prems(1) obtain t where t: "act a s = Inr t" and r: "run as t = Inr s'"
    by (auto split: sum.splits)
  have fresh: "\<not> closed (send s c)" if "a = Hub (Join c)" for c
    using that Cons.prems(2,5) by auto
  have ot: "members_open t"
    using act_members_open [OF t Cons.prems(3)] fresh by blast
  have seen: "members t \<subseteq> S \<union> joined a" "\<forall>c. closed (send t c) \<longrightarrow> c \<in> S \<union> left a s"
    using act_closed_seen [OF t Cons.prems(4,5)] by auto
  show ?case
  proof (cases a)
    case (Hub e)
    show ?thesis
    proof (cases e)
      case (Join c)
      with Hub Cons.prems(2) have "joins_once as (insert c S)" by simp
      moreover have "members t \<subseteq> insert c S" "\<forall>d. closed (send t d) \<longrightarrow> d \<in> insert c S"
        using seen Hub Join by auto
      ultimately show ?thesis
        using Cons.IH [OF r _ ot] by blast
    next
      case (Leave c)
      with Hub Cons.prems(2) have "joins_once as (insert c S)" by simp
      moreover have "members t \<subseteq> insert c S" "\<forall>d. closed (send t d) \<longrightarrow> d \<in> insert c S"
        using seen Hub Leave by auto
      ultimately show ?thesis
        using Cons.IH [OF r _ ot] by blast
    next
      case (Forward m)
      with Hub Cons.prems(2) have j: "joins_once as S" by simp
      from Hub Forward t have st: "step (Forward m) s = Inr t" by simp
      have "members t \<subseteq> S"
        using seen(1) Hub Forward by simp
      moreover have "\<forall>d. closed (send t d) \<longrightarrow> d \<in> S"
      proof (intro allI impI)
        fix d assume "closed (send t d)"
        then show "d \<in> S"
          using Forward_send [OF st, of d] Cons.prems(4,5)
          by (auto simp: deliver_def split: if_splits)
      qed
      ultimately show ?thesis
        using Cons.IH [OF r j ot] by blast
    qed
  next
    case (Write d)
    with Cons.prems(2) have j: "joins_once as S" by simp
    have "members t \<subseteq> S" "\<forall>c. closed (send t c) \<longrightarrow> c \<in> S"
      using seen Write by auto
    then show ?thesis
      using Cons.IH [OF r j ot] by blast
  qed
qed

lemma newRoom_members_open:
  "run as newRoom = Inr s \<Longrightarrow> joins_once as {} \<Longrightarrow> members_open s"
  by (erule run_members_open)
     (simp_all add: members_open_def members_newRoom,
      simp_all add: newRoom_def make_chan_def client_keys_def empty.rep_eq)

text \<open>
  The order in which the forward loop visits the keys does not matter for the membership
  and the mailboxes it leaves, nor for whether it panics when the members' mailboxes are
  open: Go leaves the order of a range over a map open, the model takes the order of
  \<open>client_keys\<close>.
\<close>

lemma forward_order_irrelevant:
  assumes "distinct ks" and "set ks = members s"
    and "forward_range m ks s = Inr t" and "step (Forward m) s = Inr s'"
  shows "members t = members s' \<and> send t = send s'"
proof -
  have "client_keys t = filter (\<lambda>c. has_room (send s c)) (client_keys s)"
    using forward_range_keys [OF assms(3,1)] assms(2)
    by (auto simp: members_def intro!: filter_cong)
  then have "members t = members s'"
    using Forward_keys [OF assms(4)] by (simp add: members_def)
  moreover have "send t c = send s' c" for c
    using forward_range_send [OF assms(3,1), of c] forward_range_send_other [OF assms(3), of c]
      Forward_send [OF assms(4), of c] assms(2) by auto
  ultimately show ?thesis by auto
qed

lemma forward_order_ok:
  assumes "distinct ks" and "set ks = members s" and "members_open s"
  shows "\<exists>t. forward_range m ks s = Inr t"
  using assms forward_range_ok [of ks s m] by (simp add: members_open_def members_def)

lemma forward_range_any_order:
  assumes "distinct ks" and "set ks = members s" and "members_open s"
  shows "\<exists>t. forward_range m ks s = Inr t \<and>
           members t = members s - {d. \<not> has_room (send s d)} \<and>
           (\<forall>d. send t d = (if d \<in> members s then deliver m (send s d) else send s d)) \<and>
           tracer t = tracer s @
             map (\<lambda>d. if has_room (send s d) then '' -- sent to client''
                      else '' -- failed to send, cleaned up client'') ks"
proof -
  from assms obtain t where t: "forward_range m ks s = Inr t"
    using forward_order_ok by blast
  have "client_keys t = filter (\<lambda>c. has_room (send s c)) (client_keys s)"
    using forward_range_keys [OF t assms(1)] assms(2)
    by (auto simp: members_def intro!: filter_cong)
  then have "members t = members s - {d. \<not> has_room (send s d)}"
    by (auto simp: members_def)
  moreover have "send t d = (if d \<in> members s then deliver m (send s d) else send s d)" for d
    using forward_range_send [OF t assms(1), of d] forward_range_send_other [OF t, of d] assms(2)
    by auto
  ultimately show ?thesis
    using t forward_range_tracer [OF t assms(1)] by blast
qed

subsection \<open>The example rooms\<close>

lemmas eval_defs = client_keys_def update.rep_eq empty.rep_eq delete.rep_eq select_send_def
  close_chan_def make_chan_def messageBufferSize_def Trace_def newRoom_def members_def
  has_room_def chan_recv_def

lemma example_room_keys: "client_keys example_room = [2, 3]"
  by (simp add: example_room_def client_keys_def update.rep_eq empty.rep_eq)

lemma example_room_members: "members example_room = {2, 3}"
  by (auto simp: members_def example_room_keys)

lemma example_room_send:
  "send example_room 2 = backed_up" "send example_room 3 = make_chan messageBufferSize"
  by (simp_all add: example_room_def)

lemma example_room_open: "members_open example_room"
  by (simp add: members_open_def example_room_keys example_room_send backed_up_def make_chan_def)

lemma example_room_room:
  "\<not> has_room (send example_room 2)" "has_room (send example_room 3)"
  by (simp_all add: example_room_send has_room_def backed_up_def make_chan_def messageBufferSize_def)

lemma quiet_room_keys: "client_keys quiet_room = [2, 3]"
  by (simp add: quiet_room_def client_keys_def update.rep_eq empty.rep_eq)

lemma quiet_room_members: "members quiet_room = {2, 3}"
  by (auto simp: members_def quiet_room_keys)

lemma quiet_room_send: "send quiet_room c = make_chan messageBufferSize"
  by (simp add: quiet_room_def)

lemma quiet_room_open: "members_open quiet_room"
  by (simp add: members_open_def quiet_room_send make_chan_def)

lemma quiet_room_room: "has_room (send quiet_room c)"
  by (simp add: quiet_room_send has_room_def make_chan_def messageBufferSize_def)

subsection \<open>A second close\<close>

lemma leave_twice_panics:
  "step (Leave c) s = Inr s' \<Longrightarrow> step (Leave c) s' = Inl CloseOfClosedChannel"
  by (auto simp: close_chan_def split: if_splits)

lemma evict_then_leave_panics:
  assumes "c \<in> members s" and "\<not> has_room (send s c)" and "step (Forward m) s = Inr s'"
  shows "step (Leave c) s' = Inl CloseOfClosedChannel"
  using Forward_send [OF assms(3), of c] assms(1,2) by (simp add: deliver_def close_chan_def)

lemma forwards_fill_mailbox:
  "client_keys s = [c] \<Longrightarrow> \<not> closed (send s c) \<Longrightarrow>
   length (buf (send s c)) + n \<le> cap (send s c) \<Longrightarrow>
   \<exists>s'. run (replicate n (Hub (Forward m))) s = Inr s' \<and> client_keys s' = [c] \<and>
        send s' c = (send s c)\<lparr>buf := buf (send s c) @ replicate n m\<rparr>"
proof (induction n arbitrary: s)
  case 0
  then show ?case by simp
next
  case (Suc n)
  let ?t = "Trace '' -- sent to client''
              (s\<lparr>send := (send s)(c := (send s c)\<lparr>buf := buf (send s c) @ [m]\<rparr>)\<rparr>)"
  have st: "step (Forward m) s = Inr ?t"
    using Suc.prems by (simp add: select_send_def)
  have "\<exists>s'. run (replicate n (Hub (Forward m))) ?t = Inr s' \<and> client_keys s' = [c] \<and>
        send s' c = (send ?t c)\<lparr>buf := buf (send ?t c) @ replicate n m\<rparr>"
    using Suc.prems by (intro Suc.IH) simp_all
  then show ?case
    using st by (auto simp: replicate_app_Cons_same)
qed

text \<open>
  One session whose write pump takes nothing: the 257th message it forwards finds its own
  mailbox full, the loop evicts it, and the Leave that \<^verbatim>\<open>ServeHTTP\<close> has deferred closes
  the mailbox a second time. Whatever follows is not processed.
\<close>

lemma stalled_session_panics:
  "run (map Hub (Join 2 # read 2 (replicate 257 []) @ [Leave 2]) @ as) newRoom =
     Inl CloseOfClosedChannel"
proof -
  let ?j = "Trace ''New client joined'' (newRoom\<lparr>clients := DAList.update 2 True (clients newRoom)\<rparr>)"
  have j: "client_keys ?j = [2]" "\<not> closed (send ?j 2)" "buf (send ?j 2) = []" "cap (send ?j 2) = 256"
    by (simp_all add: eval_defs)
  then have "length (buf (send ?j 2)) + 256 \<le> cap (send ?j 2)" by simp
  from forwards_fill_mailbox [OF j(1,2) this, of "[]"]
  obtain t where t: "run (replicate 256 (Hub (Forward []))) ?j = Inr t"
    and kt: "client_keys t = [2]"
    and st: "send t 2 = (send ?j 2)\<lparr>buf := buf (send ?j 2) @ replicate 256 []\<rparr>"
    by blast
  have full: "\<not> closed (send t 2)" "\<not> length (buf (send t 2)) < cap (send t 2)"
    using j by (simp_all add: st)
  have e: "run ([Hub (Forward []), Hub (Leave 2)] @ as) t = Inl CloseOfClosedChannel"
    using kt full by (simp add: select_send_def close_chan_def)
  have split: "map Hub (Join 2 # read 2 (replicate 257 []) @ [Leave 2]) @ as =
      [Hub (Join 2)] @ replicate 256 (Hub (Forward [])) @ ([Hub (Forward []), Hub (Leave 2)] @ as)"
  proof -
    have "replicate 257 ([] :: msg) = replicate (Suc 256) []"
      by simp
    also have "\<dots> = replicate 256 [] @ [[]]"
      by (simp only: replicate_Suc replicate_append_same)
    finally show ?thesis
      by (simp add: read_def)
  qed
  let ?rest = "[Hub (Forward []), Hub (Leave 2)] @ as"
  have "run ([Hub (Join 2)] @ replicate 256 (Hub (Forward [])) @ ?rest) newRoom =
      run (replicate 256 (Hub (Forward [])) @ ?rest) ?j"
    by simp
  also have "\<dots> = run ?rest t"
    by (simp only: run_append [of "replicate 256 (Hub (Forward []))" ?rest ?j] t sum.case)
  finally show ?thesis
    by (simp only: split e)
qed

subsection \<open>The acceptor's channel\<close>

lemma serve_keeps_capacity:
  "serve os s = Running s' \<Longrightarrow>
   cap (send s c) = messageBufferSize \<and> length (buf (send s c)) \<le> messageBufferSize \<Longrightarrow>
   cap (send s' c) = messageBufferSize \<and> length (buf (send s' c)) \<le> messageBufferSize"
proof (induction os arbitrary: s)
  case Nil
  then show ?case by simp
next
  case (Cons x os)
  show ?case
  proof (cases x)
    case (Accept err d msgs)
    with Cons.prems(1) have none: "err = None"
      and r: "serve os (s\<lparr>send := (send s)(d := make_chan messageBufferSize)\<rparr>) = Running s'"
      by (auto simp: ServeHTTP_def split: if_splits)
    show ?thesis
      using Cons.prems(2) by (intro Cons.IH [OF r]) (simp add: make_chan_def)
  next
    case (Do a)
    with Cons.prems(1) obtain t where t: "act a s = Inr t" and r: "serve os t = Running s'"
      by (auto split: sum.splits)
    show ?thesis
      using act_cap [OF t, of c] Cons.prems(2) by (intro Cons.IH [OF r]) simp
  qed
qed

lemma serve_accepted_capacity:
  "serve os s = Running s' \<Longrightarrow> Accept err c msgs \<in> set os \<Longrightarrow>
   cap (send s' c) = messageBufferSize \<and> length (buf (send s' c)) \<le> messageBufferSize"
proof (induction os arbitrary: s)
  case Nil
  then show ?case by simp
next
  case (Cons x os)
  show ?case
  proof (cases x)
    case (Accept err' d msgs')
    with Cons.prems(1) have none: "err' = None"
      and r: "serve os (s\<lparr>send := (send s)(d := make_chan messageBufferSize)\<rparr>) = Running s'"
      by (auto simp: ServeHTTP_def split: if_splits)
    show ?thesis
    proof (cases "d = c")
      case True
      show ?thesis
        using True by (intro serve_keeps_capacity [OF r]) (simp add: make_chan_def)
    next
      case False
      with Accept Cons.prems(2) have "Accept err c msgs \<in> set os" by auto
      then show ?thesis
        by (rule Cons.IH [OF r])
    qed
  next
    case (Do a)
    with Cons.prems(1) obtain t where t: "act a s = Inr t" and r: "serve os t = Running s'"
      by (auto split: sum.splits)
    from Do Cons.prems(2) have "Accept err c msgs \<in> set os" by auto
    then show ?thesis
      by (rule Cons.IH [OF r])
  qed
qed

text \<open>The store of \<open>newRoom\<close> is the one the acceptor makes.\<close>

lemma serve_accept_newRoom: "serve [Accept None c msgs] newRoom = Running newRoom"
  by (simp add: ServeHTTP_def newRoom_def fun_upd_idem)

lemma serve_run:
  "serve (map Do as) s = (case run as s of Inl p \<Rightarrow> Panicked p | Inr s' \<Rightarrow> Running s')"
  by (induction as arbitrary: s) (auto split: sum.splits)

section \<open>The claims\<close>

text \<open>
  C1. The claim: a Leave, or an eviction, for a session that is already absent is a safe
  no-op and the loop goes on. The code closes the mailbox again, and the second close
  panics: after Join, Leave, Leave of one session; after an eviction by Forward followed
  by the Leave of the evicted session; and on the events of a single call of
  \<^verbatim>\<open>ServeHTTP\<close> whose session forwards 257 messages while its write pump takes none.
\<close>

theorem second_close_panics:
  "run (map Hub [Join 2, Leave 2, Leave 2]) newRoom = Inl CloseOfClosedChannel \<and>
   run [Hub (Forward [7]), Hub (Leave 2)] example_room = Inl CloseOfClosedChannel \<and>
   (case ServeHTTP None 2 (replicate 257 []) of
      Exit n \<Rightarrow> False
    | Session ch evs \<Rightarrow>
        ch = send newRoom 2 \<and> run (map Hub evs) newRoom = Inl CloseOfClosedChannel)"
proof -
  have a: "run (map Hub [Join 2, Leave 2, Leave 2]) newRoom = Inl CloseOfClosedChannel"
    by (simp add: eval_defs)
  have b: "run [Hub (Forward [7]), Hub (Leave 2)] example_room = Inl CloseOfClosedChannel"
    by (simp add: eval_defs example_room_def backed_up_def)
  have c: "run (map Hub (Join 2 # read 2 (replicate 257 []) @ [Leave 2])) newRoom =
      Inl CloseOfClosedChannel"
    using stalled_session_panics [of "[]"] by simp
  show ?thesis
    using a b c by (simp add: ServeHTTP_def newRoom_def)
qed

text \<open>
  C2. The claim: a failed upgrade creates no session, touches the hub in no way and rejects
  only that request, the other requests and sessions going on. In the code a failed
  upgrade creates no session and submits no event, but it ends the process with exit
  status 1, for every client and every request.
\<close>

theorem failed_upgrade_exits:
  "ServeHTTP (Some e) c msgs = Exit 1"
  by (simp add: ServeHTTP_def)

text \<open>
  C3. When the room's members all have open mailboxes and the mailbox of a member \<open>c\<close> is at
  capacity, processing a Forward succeeds and removes from the membership exactly the
  sessions whose mailbox is at capacity, \<open>c\<close> among them; the mailbox of \<open>c\<close> is closed as a
  Leave of \<open>c\<close> would close it; one trace event is emitted per member, in some order of the
  members (the order of a range over a map is open), the failed-send event for \<open>c\<close>; and
  every member whose mailbox has room stays a member and has the message appended to its
  mailbox.
\<close>

theorem forward_evicts_full_mailbox:
  assumes "members_open s" and "c \<in> members s" and "\<not> has_room (send s c)"
  shows "\<exists>s'. step (Forward m) s = Inr s' \<and>
           members s' = members s - {d. \<not> has_room (send s d)} \<and>
           c \<notin> members s' \<and>
           send s' c = (send s c)\<lparr>closed := True\<rparr> \<and>
           (\<exists>t. step (Leave c) s = Inr t \<and> send t c = send s' c \<and> c \<notin> members t) \<and>
           (\<exists>ks. distinct ks \<and> set ks = members s \<and>
              tracer s' = tracer s @
                map (\<lambda>d. if has_room (send s d) then '' -- sent to client''
                         else '' -- failed to send, cleaned up client'') ks) \<and>
           '' -- failed to send, cleaned up client'' \<in> set (drop (length (tracer s)) (tracer s')) \<and>
           (\<forall>d\<in>members s. has_room (send s d) \<longrightarrow>
              d \<in> members s' \<and> send s' d = (send s d)\<lparr>buf := buf (send s d) @ [m]\<rparr>)"
proof -
  from assms(1) obtain s' where s': "step (Forward m) s = Inr s'"
    using Forward_ok by blast
  have open_c: "\<not> closed (send s c)"
    using assms(1,2) by (simp add: members_open_def members_def)
  have mem: "members s' = members s - {d. \<not> has_room (send s d)}"
    using s' by (rule Forward_members)
  have snd: "\<And>d. send s' d = (if d \<in> members s then deliver m (send s d) else send s d)"
    using s' by (rule Forward_send)
  have tr: "tracer s' = tracer s @
             map (\<lambda>d. if has_room (send s d) then '' -- sent to client''
                      else '' -- failed to send, cleaned up client'') (client_keys s)"
    using s' by (rule Forward_tracer)
  have perm: "\<exists>ks. distinct ks \<and> set ks = members s \<and>
              tracer s' = tracer s @
                map (\<lambda>d. if has_room (send s d) then '' -- sent to client''
                         else '' -- failed to send, cleaned up client'') ks"
    using tr by (intro exI [of _ "client_keys s"]) (simp add: members_def)
  have "c \<in> set (client_keys s)"
    using assms(2) by (simp add: members_def)
  then have failed: "'' -- failed to send, cleaned up client'' \<in> set (drop (length (tracer s)) (tracer s'))"
    using assms(3) by (auto simp: tr image_iff intro!: bexI [of _ c])
  have leave: "\<exists>t. step (Leave c) s = Inr t \<and> send t c = send s' c \<and> c \<notin> members t"
    using open_c assms(2,3) by (simp add: close_chan_def snd deliver_def)
  have c_out: "c \<notin> members s'" and c_closed: "send s' c = (send s c)\<lparr>closed := True\<rparr>"
    using mem snd assms(2,3) by (simp_all add: deliver_def)
  have others: "\<forall>d\<in>members s. has_room (send s d) \<longrightarrow>
              d \<in> members s' \<and> send s' d = (send s d)\<lparr>buf := buf (send s d) @ [m]\<rparr>"
    using mem snd by (simp add: deliver_def)
  show ?thesis
    using s' mem c_out c_closed leave perm failed others by blast
qed

theorem forward_evicts_full_mailbox_witness:
  "members_open example_room \<and> 2 \<in> members example_room \<and>
   \<not> has_room (send example_room 2) \<and>
   (\<exists>s'. step (Forward [7]) example_room = Inr s' \<and> members s' = {3} \<and>
      closed (send s' 2) \<and> buf (send s' 2) = replicate 256 [] \<and> buf (send s' 3) = [[7]])"
proof -
  have h1: "members_open example_room" by (rule example_room_open)
  have h2: "2 \<in> members example_room" by (simp add: example_room_members)
  have h3: "\<not> has_room (send example_room 2)" by (rule example_room_room)
  from forward_evicts_full_mailbox [OF h1 h2 h3, of "[7]"]
  obtain s' where s': "step (Forward [7]) example_room = Inr s'"
    and mem: "members s' = members example_room - {d. \<not> has_room (send example_room d)}"
    and c: "send s' 2 = (send example_room 2)\<lparr>closed := True\<rparr>"
    and others: "\<forall>d\<in>members example_room. has_room (send example_room d) \<longrightarrow>
              d \<in> members s' \<and> send s' d = (send example_room d)\<lparr>buf := buf (send example_room d) @ [[7]]\<rparr>"
    by blast
  have "members s' = {3}"
    using mem example_room_room by (auto simp: example_room_members)
  moreover have "closed (send s' 2) \<and> buf (send s' 2) = replicate 256 []"
    by (simp add: c example_room_send backed_up_def messageBufferSize_def)
  moreover have "buf (send s' 3) = [[7]]"
    using others example_room_room(2)
    by (simp add: example_room_members example_room_send make_chan_def)
  ultimately show ?thesis
    using h1 h2 h3 s' by blast
qed

text \<open>
  C4. When the members' mailboxes are all open and all have room, processing a Forward
  succeeds, appends the message to the mailbox of every member and changes no other
  mailbox, leaves the membership and the keys of the map as they were, and makes one
  non-blocking send per member: the trace grows by as many sent events as there are
  members.
\<close>

theorem forward_to_all_members:
  assumes "members_open s" and "\<forall>c\<in>members s. has_room (send s c)"
  shows "\<exists>s'. step (Forward m) s = Inr s' \<and>
           members s' = members s \<and> client_keys s' = client_keys s \<and>
           (\<forall>c. send s' c =
              (if c \<in> members s then (send s c)\<lparr>buf := buf (send s c) @ [m]\<rparr> else send s c)) \<and>
           tracer s' = tracer s @ replicate (card (members s)) '' -- sent to client''"
proof -
  from assms(1) obtain s' where s': "step (Forward m) s = Inr s'"
    using Forward_ok by blast
  have mem: "members s' = members s"
    using Forward_members [OF s'] assms(2) by auto
  have keys: "client_keys s' = client_keys s"
    using Forward_keys [OF s'] assms(2) by (simp add: members_def)
  have snd: "\<forall>c. send s' c =
              (if c \<in> members s then (send s c)\<lparr>buf := buf (send s c) @ [m]\<rparr> else send s c)"
    using Forward_send [OF s'] assms(2) by (simp add: deliver_def)
  have "card (members s) = length (client_keys s)"
    by (simp add: members_def distinct_card)
  moreover have "map (\<lambda>c. if has_room (send s c) then '' -- sent to client''
                else '' -- failed to send, cleaned up client'') (client_keys s)
         = map (\<lambda>c. '' -- sent to client'') (client_keys s)"
    using assms(2) by (simp add: members_def)
  ultimately have tr: "tracer s' = tracer s @ replicate (card (members s)) '' -- sent to client''"
    using Forward_tracer [OF s'] by (simp add: map_replicate_const)
  show ?thesis
    using s' mem keys snd tr by blast
qed

theorem forward_to_all_members_witness:
  "members_open quiet_room \<and> members quiet_room = {2, 3} \<and>
   has_room (send quiet_room 2) \<and> has_room (send quiet_room 3) \<and>
   (\<exists>s'. step (Forward [7]) quiet_room = Inr s' \<and> members s' = {2, 3} \<and>
      buf (send s' 2) = [[7]] \<and> buf (send s' 3) = [[7]] \<and> buf (send s' 4) = [] \<and>
      tracer s' = ['' -- sent to client'', '' -- sent to client''])"
proof -
  have h1: "members_open quiet_room" by (rule quiet_room_open)
  have h2: "\<forall>c\<in>members quiet_room. has_room (send quiet_room c)"
    by (simp add: quiet_room_room)
  from forward_to_all_members [OF h1 h2, of "[7]"]
  obtain s' where s': "step (Forward [7]) quiet_room = Inr s'"
    and mem: "members s' = members quiet_room"
    and snd: "\<And>c. send s' c =
              (if c \<in> members quiet_room
               then (send quiet_room c)\<lparr>buf := buf (send quiet_room c) @ [[7]]\<rparr>
               else send quiet_room c)"
    and tr: "tracer s' = tracer quiet_room @ replicate (card (members quiet_room)) '' -- sent to client''"
    by blast
  have "card (members quiet_room) = 2"
    by (simp add: quiet_room_members)
  then have "tracer s' = ['' -- sent to client'', '' -- sent to client'']"
    using tr by (simp add: quiet_room_def numeral_2_eq_2)
  moreover have "buf (send s' 2) = [[7]]" "buf (send s' 3) = [[7]]" "buf (send s' 4) = []"
    by (simp_all add: snd quiet_room_members quiet_room_send make_chan_def)
  ultimately show ?thesis
    using h1 s' mem quiet_room_members quiet_room_room by auto
qed

text \<open>
  C5. The claim: after every finite sequence of events, from the new room, the membership
  is the set of sessions that have joined and not left since. After Join 2, Leave 2,
  Leave 2, Join 3 that set is \<open>{3}\<close>, but the loop has panicked on the second Leave and
  never processes the Join of 3; the same happens when the first removal of session 2 is
  the eviction of the stalled session above. (On a run without a panic the membership is
  that set: \<open>newRoom_run_members\<close>.)
\<close>

theorem membership_lost_on_panic:
  "run (map Hub [Join 2, Leave 2, Leave 2, Join 3]) newRoom = Inl CloseOfClosedChannel \<and>
   joined_not_left (map Hub [Join 2, Leave 2, Leave 2, Join 3]) newRoom {} = {3} \<and>
   run (map Hub (Join 2 # read 2 (replicate 257 []) @ [Leave 2]) @ [Hub (Join 3)]) newRoom =
     Inl CloseOfClosedChannel"
proof -
  have a: "run (map Hub [Join 2, Leave 2, Leave 2, Join 3]) newRoom = Inl CloseOfClosedChannel"
    by (simp add: eval_defs)
  have b: "joined_not_left (map Hub [Join 2, Leave 2, Leave 2, Join 3]) newRoom {} = {3}"
    by (auto simp: eval_defs)
  show ?thesis
    using a b stalled_session_panics [of "[Hub (Join 3)]"] by blast
qed

text \<open>
  C6, as amended. The fan-out does not exclude the sender. What a client's read pump submits
  is the message alone, and when the members' mailboxes are open, processing it succeeds and
  makes the same delivery to every member, the sender \<open>c\<close> among them: a sender whose
  mailbox has room stays a member and receives its own message; a sender whose mailbox is at
  capacity is evicted without it, as any other member would be.
\<close>

theorem sender_receives_own_message:
  assumes "members_open s" and "c \<in> members s"
  shows "read c [m] = [Forward m] \<and>
         (\<exists>s'. run (map Hub (read c [m])) s = Inr s' \<and>
            (\<forall>d\<in>members s. send s' d = deliver m (send s d)) \<and>
            (has_room (send s c) \<longrightarrow>
               c \<in> members s' \<and> send s' c = (send s c)\<lparr>buf := buf (send s c) @ [m]\<rparr>) \<and>
            (\<not> has_room (send s c) \<longrightarrow>
               c \<notin> members s' \<and> send s' c = (send s c)\<lparr>closed := True\<rparr>))"
proof -
  from assms(1) obtain s' where s': "step (Forward m) s = Inr s'"
    using Forward_ok by blast
  have all: "\<forall>d\<in>members s. send s' d = deliver m (send s d)"
    using Forward_send [OF s'] by simp
  have room: "c \<in> members s' \<and> send s' c = (send s c)\<lparr>buf := buf (send s c) @ [m]\<rparr>"
    if "has_room (send s c)"
    using that assms(2) Forward_members [OF s'] Forward_send [OF s', of c]
    by (simp add: deliver_def)
  have full: "c \<notin> members s' \<and> send s' c = (send s c)\<lparr>closed := True\<rparr>"
    if "\<not> has_room (send s c)"
    using that assms(2) Forward_members [OF s'] Forward_send [OF s', of c]
    by (simp add: deliver_def)
  show ?thesis
    using s' all room full by (simp add: read_def)
qed

theorem sender_receives_own_message_witness:
  "members_open example_room \<and> 3 \<in> members example_room \<and>
   (\<exists>s'. run (map Hub (read 3 [[7]])) example_room = Inr s' \<and> 3 \<in> members s' \<and>
      buf (send s' 3) = [[7]])"
proof -
  have h1: "members_open example_room" by (rule example_room_open)
  have h2: "3 \<in> members example_room" by (simp add: example_room_members)
  have h3: "has_room (send example_room 3)" by (rule example_room_room)
  from sender_receives_own_message [OF h1 h2, of "[7]"] h3
  obtain s' where "run (map Hub (read 3 [[7]])) example_room = Inr s'" "3 \<in> members s'"
    "send s' 3 = (send example_room 3)\<lparr>buf := buf (send example_room 3) @ [[7]]\<rparr>"
    by blast
  then show ?thesis
    using h1 h2 by (auto simp: example_room_send make_chan_def)
qed

text \<open>
  The claim as it was worded, that every Forward delivers the message to every member and
  so to its sender, fails where the sender's mailbox is at capacity: in \<open>example_room\<close>
  the message that client 2 forwards does not reach the mailbox of client 2, which is
  evicted.
\<close>

theorem sender_at_capacity_not_delivered:
  "2 \<in> members example_room \<and>
   run (map Hub (read 2 [[7]])) example_room =
     Inr (projr (run (map Hub (read 2 [[7]])) example_room)) \<and>
   2 \<notin> members (projr (run (map Hub (read 2 [[7]])) example_room)) \<and>
   [7] \<notin> set (buf (send (projr (run (map Hub (read 2 [[7]])) example_room)) 2))"
  by (simp add: eval_defs read_def example_room_def backed_up_def)

text \<open>
  C7. Once an action has removed a session \<open>c\<close> from the membership, by Leave or by
  eviction, its mailbox is closed and stays closed in every state the system reaches
  afterwards; the pending messages there are a suffix of those pending at the removal, so
  nothing has been enqueued; and no Forward processed in such a state changes the
  mailbox of \<open>c\<close>.
\<close>

theorem no_delivery_after_removal:
  assumes "c \<in> members s" and "act a s = Inr s1" and "c \<notin> members s1"
    and "run as s1 = Inr s2"
  shows "closed (send s2 c) \<and> (\<exists>k. buf (send s2 c) = drop k (buf (send s1 c))) \<and>
         (\<forall>m s3. step (Forward m) s2 = Inr s3 \<longrightarrow> send s3 c = send s2 c)"
proof -
  have c1: "closed (send s1 c)"
    using act_removed_closed [OF assms(2,1,3)] .
  have c2: "closed (send s2 c) \<and> (\<exists>k. buf (send s2 c) = drop k (buf (send s1 c)))"
    using run_closed [OF assms(4) c1] .
  have "send s3 c = send s2 c" if s3: "step (Forward m) s2 = Inr s3" for m s3
  proof -
    have "c \<notin> members s2"
      using Forward_member_open [OF s3] c2 by blast
    then show ?thesis
      using Forward_send [OF s3] by simp
  qed
  with c2 show ?thesis by blast
qed

theorem no_delivery_after_removal_witness:
  "2 \<in> members example_room \<and>
   (\<exists>s1 s2. act (Hub (Forward [7])) example_room = Inr s1 \<and> 2 \<notin> members s1 \<and>
      run [Hub (Forward [8])] s1 = Inr s2 \<and> closed (send s2 2) \<and>
      (\<exists>k. buf (send s2 2) = drop k (buf (send s1 2))))"
proof -
  have h1: "2 \<in> members example_room" by (simp add: example_room_members)
  obtain s1 where s1: "step (Forward [7]) example_room = Inr s1"
    using Forward_ok [OF example_room_open] by blast
  then have h2: "act (Hub (Forward [7])) example_room = Inr s1" by simp
  have h3: "2 \<notin> members s1"
    using Forward_members [OF s1] example_room_room(1) by simp
  have "members_open s1"
    using act_members_open [OF h2 example_room_open] by simp
  then obtain s2 where "step (Forward [8]) s1 = Inr s2"
    using Forward_ok by blast
  then have h4: "run [Hub (Forward [8])] s1 = Inr s2" by simp
  show ?thesis
    using h1 h2 h3 h4 no_delivery_after_removal [OF h1 h2 h3 h4] by blast
qed

lemma count_list_distinct: "distinct xs \<Longrightarrow> x \<in> set xs \<Longrightarrow> count_list xs x = 1"
  by (induction xs) auto

text \<open>
  C8. Processing a Join for a session that is already a member does not panic and leaves
  the membership, the keys of the map (the session is there once) and every mailbox as they
  were; only the trace gets the joined event once more.
\<close>

theorem join_of_member_idempotent:
  assumes "c \<in> members s"
  shows "\<exists>s'. step (Join c) s = Inr s' \<and> members s' = members s \<and>
           client_keys s' = client_keys s \<and> count_list (client_keys s') c = 1 \<and>
           send s' = send s \<and> tracer s' = tracer s @ [''New client joined'']"
proof -
  have "count_list (client_keys s) c = 1"
    using assms by (simp add: members_def count_list_distinct)
  then show ?thesis
    using assms by (auto simp: members_def)
qed

theorem join_of_member_idempotent_witness:
  "2 \<in> members quiet_room \<and>
   (\<exists>s'. step (Join 2) quiet_room = Inr s' \<and> members s' = {2, 3} \<and>
      client_keys s' = [2, 3] \<and> tracer s' = [''New client joined''])"
proof -
  have h: "2 \<in> members quiet_room" by (simp add: quiet_room_members)
  from join_of_member_idempotent [OF h]
  obtain s' where "step (Join 2) quiet_room = Inr s'" "members s' = members quiet_room"
    "client_keys s' = client_keys quiet_room" "tracer s' = tracer quiet_room @ [''New client joined'']"
    by blast
  moreover have "tracer quiet_room = []" by (simp add: quiet_room_def)
  ultimately show ?thesis
    using h by (auto simp: quiet_room_members quiet_room_keys)
qed

text \<open>
  C9. Whatever the store held before, once \<^verbatim>\<open>ServeHTTP\<close> has accepted a client \<open>c\<close>, the
  mailbox it has made for \<open>c\<close> is a channel of capacity 256, and in every state the server
  reaches afterwards that mailbox has capacity 256 and holds at most 256 messages; the
  non-blocking send of a Forward on the open mailbox succeeds exactly when fewer than 256
  messages are pending and takes the default case exactly when 256 are; and a Forward
  evicts the member \<open>c\<close> exactly when 256 messages are pending in its mailbox.
\<close>

theorem mailbox_capacity:
  assumes "serve os s0 = Running s" and "Accept err c msgs \<in> set os"
  shows "ServeHTTP err c msgs =
           Session (make_chan 256) (Join c # read c msgs @ [Leave c]) \<and>
         cap (send s c) = 256 \<and> length (buf (send s c)) \<le> 256 \<and>
         (\<not> closed (send s c) \<longrightarrow>
            ((\<exists>ch. select_send (send s c) m = Inr (Some ch)) \<longleftrightarrow> length (buf (send s c)) < 256) \<and>
            (select_send (send s c) m = Inr None \<longleftrightarrow> length (buf (send s c)) = 256)) \<and>
         (\<forall>s'. c \<in> members s \<longrightarrow> step (Forward m) s = Inr s' \<longrightarrow>
            (c \<notin> members s' \<longleftrightarrow> length (buf (send s c)) = 256))"
proof -
  have none: "err = None"
    using assms
  proof (induction os arbitrary: s0)
    case Nil
    then show ?case by simp
  next
    case (Cons x os)
    then show ?case
      by (cases x) (auto simp: ServeHTTP_def split: if_splits sum.splits)
  qed
  then have made: "ServeHTTP err c msgs =
           Session (make_chan 256) (Join c # read c msgs @ [Leave c])"
    by (simp add: ServeHTTP_def messageBufferSize_def)
  have cp: "cap (send s c) = 256" and len: "length (buf (send s c)) \<le> 256"
    using serve_accepted_capacity [OF assms] by (simp_all add: messageBufferSize_def)
  have sel: "\<not> closed (send s c) \<longrightarrow>
            ((\<exists>ch. select_send (send s c) m = Inr (Some ch)) \<longleftrightarrow> length (buf (send s c)) < 256) \<and>
            (select_send (send s c) m = Inr None \<longleftrightarrow> length (buf (send s c)) = 256)"
    using cp len by (auto simp: select_send_def)
  have ev: "c \<notin> members s' \<longleftrightarrow> length (buf (send s c)) = 256"
    if "c \<in> members s" and s': "step (Forward m) s = Inr s'" for s'
    using Forward_members [OF s'] that(1) cp len by (auto simp: has_room_def)
  show ?thesis
    using made cp len sel ev by blast
qed

theorem mailbox_capacity_witness:
  "serve [Accept None 2 [], Do (Hub (Join 2)), Do (Hub (Forward [7]))] unmade =
     Running (the_state (serve [Accept None 2 [], Do (Hub (Join 2)), Do (Hub (Forward [7]))] unmade)) \<and>
   Accept None 2 [] \<in> set [Accept None 2 [], Do (Hub (Join 2)), Do (Hub (Forward [7]))] \<and>
   cap (send (the_state (serve [Accept None 2 [], Do (Hub (Join 2)), Do (Hub (Forward [7]))] unmade)) 2) = 256 \<and>
   length (buf (send (the_state (serve [Accept None 2 [], Do (Hub (Join 2)), Do (Hub (Forward [7]))] unmade)) 2)) \<le> 256 \<and>
   buf (send (the_state (serve [Accept None 2 [], Do (Hub (Join 2)), Do (Hub (Forward [7]))] unmade)) 2) = [[7]] \<and>
   cap (send (the_state (serve [Accept None 2 [], Do (Hub (Join 2)), Do (Hub (Forward [7]))] unmade)) 3) = 0"
proof -
  let ?os = "[Accept None 2 [], Do (Hub (Join 2)), Do (Hub (Forward [7]))]"
  have h1: "serve ?os unmade = Running (the_state (serve ?os unmade))"
    by (simp add: eval_defs ServeHTTP_def unmade_def)
  have h2: "Accept None 2 [] \<in> set ?os" by simp
  have v: "buf (send (the_state (serve ?os unmade)) 2) = [[7]]"
      "cap (send (the_state (serve ?os unmade)) 3) = 0"
    by (simp_all add: eval_defs ServeHTTP_def unmade_def)
  show ?thesis
    using h1 h2 v mailbox_capacity [OF h1 h2] by blast
qed

text \<open>
  C10. When the members' mailboxes are open and the mailbox of member \<open>c\<close> is at capacity,
  the Forward that evicts \<open>c\<close> leaves the pending messages of \<open>c\<close> as they were: the
  message is not placed there, and not later either, for in every state reached afterwards
  the pending messages of \<open>c\<close> are a suffix of those. Every other member whose mailbox has
  room receives the message.
\<close>

theorem evicting_message_dropped:
  assumes "members_open s" and "c \<in> members s" and "\<not> has_room (send s c)"
  shows "\<exists>s'. step (Forward m) s = Inr s' \<and> c \<notin> members s' \<and>
           buf (send s' c) = buf (send s c) \<and>
           (\<forall>as t. run as s' = Inr t \<longrightarrow> (\<exists>k. buf (send t c) = drop k (buf (send s c)))) \<and>
           (\<forall>d\<in>members s. has_room (send s d) \<longrightarrow> buf (send s' d) = buf (send s d) @ [m])"
proof -
  from assms(1) obtain s' where s': "step (Forward m) s = Inr s'"
    using Forward_ok by blast
  have snd: "send s' c = (send s c)\<lparr>closed := True\<rparr>"
    using Forward_send [OF s'] assms(2,3) by (simp add: deliver_def)
  then have cl: "closed (send s' c)" and b: "buf (send s' c) = buf (send s c)"
    by simp_all
  have gone: "c \<notin> members s'"
    using Forward_members [OF s'] assms(3) by simp
  have later: "\<forall>as t. run as s' = Inr t \<longrightarrow> (\<exists>k. buf (send t c) = drop k (buf (send s c)))"
    using run_closed [OF _ cl] b by metis
  have others: "\<forall>d\<in>members s. has_room (send s d) \<longrightarrow> buf (send s' d) = buf (send s d) @ [m]"
    using Forward_send [OF s'] by (simp add: deliver_def)
  show ?thesis
    using s' gone b later others by blast
qed

theorem evicting_message_dropped_witness:
  "members_open example_room \<and> 2 \<in> members example_room \<and>
   \<not> has_room (send example_room 2) \<and>
   (\<exists>s'. step (Forward [7]) example_room = Inr s' \<and> 2 \<notin> members s' \<and>
      buf (send s' 2) = replicate 256 [] \<and> buf (send s' 3) = [[7]])"
proof -
  have h1: "members_open example_room" by (rule example_room_open)
  have h2: "2 \<in> members example_room" by (simp add: example_room_members)
  have h3: "\<not> has_room (send example_room 2)" by (rule example_room_room)
  from evicting_message_dropped [OF h1 h2 h3, of "[7]"]
  obtain s' where s': "step (Forward [7]) example_room = Inr s'" "2 \<notin> members s'"
    and b: "buf (send s' 2) = buf (send example_room 2)"
    and others: "\<forall>d\<in>members example_room. has_room (send example_room d) \<longrightarrow>
        buf (send s' d) = buf (send example_room d) @ [[7]]"
    by blast
  have "buf (send s' 2) = replicate 256 []"
    by (simp add: b example_room_send backed_up_def messageBufferSize_def)
  moreover have "buf (send s' 3) = [[7]]"
    using others example_room_room(2)
    by (simp add: example_room_members example_room_send make_chan_def)
  ultimately show ?thesis
    using h1 h2 h3 s' by blast
qed

end
